theory Spec2Isabelle
  imports Complex_Main
begin

section \<open>Strings\<close>

text \<open>
  A Python string is a sequence of Unicode code points; a code point is a number, never
  negative.  \<open>py\<close> turns an ASCII literal into such a string and \<open>cp\<close> a character
  into its code point.
\<close>

type_synonym codepoint = int

type_synonym str = "codepoint list"

definition cp :: "char \<Rightarrow> codepoint" where
  "cp c = of_char c"

definition py :: "string \<Rightarrow> str" where
  "py s = map cp s"

text \<open>The ASCII capitals are the code points 65 to 90, the small letters 97 to 122.\<close>

definition ascii_upper :: "codepoint \<Rightarrow> bool" where
  "ascii_upper c \<longleftrightarrow> 65 \<le> c \<and> c \<le> 90"

definition ascii_lower :: "codepoint \<Rightarrow> bool" where
  "ascii_lower c \<longleftrightarrow> 97 \<le> c \<and> c \<le> 122"

definition isascii :: "str \<Rightarrow> bool" where
  "isascii s \<longleftrightarrow> list_all (\<lambda>c. 0 \<le> c \<and> c < 128) s"

definition lower_char :: "codepoint \<Rightarrow> codepoint" where
  "lower_char c = (if ascii_upper c then c + 32 else c)"

definition startswith :: "str \<Rightarrow> str \<Rightarrow> bool" where
  "startswith s p \<longleftrightarrow> take (length p) s = p"

definition endswith :: "str \<Rightarrow> str \<Rightarrow> bool" where
  "endswith s p \<longleftrightarrow> length p \<le> length s \<and> drop (length s - length p) s = p"

text \<open>
  \<open>str.count(sub)\<close>: the number of non-overlapping occurrences of \<open>sub\<close>, scanning from
  the left; for the empty \<open>sub\<close> Python answers \<open>len(s) + 1\<close>.
\<close>

function count_from :: "str \<Rightarrow> str \<Rightarrow> nat" where
  "count_from w s =
     (if length s < length w \<or> w = [] then 0
      else if take (length w) s = w then Suc (count_from w (drop (length w) s))
      else count_from w (tl s))"
  by pat_completeness auto
termination
proof (relation "measure (\<lambda>(w, s). length s)")
  show "wf (measure (\<lambda>(w, s). length s))" by simp
next
  fix w s :: str
  assume "\<not> (length s < length w \<or> w = [])"
  then have "0 < length w" "0 < length s" by auto
  then show "((w, drop (length w) s), (w, s)) \<in> measure (\<lambda>(w, s). length s)" by simp
next
  fix w s :: str
  assume "\<not> (length s < length w \<or> w = [])"
  then have "s \<noteq> []" by auto
  then show "((w, tl s), (w, s)) \<in> measure (\<lambda>(w, s). length s)" by (cases s) simp_all
qed

definition str_count :: "str \<Rightarrow> str \<Rightarrow> nat" where
  "str_count s w = (if w = [] then Suc (length s) else count_from w s)"

text \<open>\<open>sub in s\<close> on strings.\<close>

definition contains :: "str \<Rightarrow> str \<Rightarrow> bool" where
  "contains sub s \<longleftrightarrow> list_ex (\<lambda>i. take (length sub) (drop i s) = sub) [0..<Suc (length s)]"

text \<open>The part of a string before, and after, the first occurrence of a delimiter.\<close>

definition before :: "codepoint \<Rightarrow> str \<Rightarrow> str" where
  "before d s = takeWhile (\<lambda>c. c \<noteq> d) s"

definition after :: "codepoint \<Rightarrow> str \<Rightarrow> str" where
  "after d s = drop 1 (dropWhile (\<lambda>c. c \<noteq> d) s)"

section \<open>The world outside the repository\<close>

text \<open>
  What the crawler gets from the network and from the libraries it calls is a parameter
  of the model.  A request is answered according to the number of events logged before
  it, so a server may answer the same request differently at different times.
\<close>

record response =
  resp_status_code :: int
  resp_content_type :: "str option"
  resp_content :: str
  resp_text :: str

datatype http_result = Timeout | ConnectionError | OtherException | Response response

text \<open>
  A parsed robots policy is its own \<open>can_fetch(useragent, url)\<close>; \<open>None\<close> stands for an
  exception raised by that call.
\<close>

type_synonym policy = "str \<Rightarrow> str \<Rightarrow> bool option"

record world =
  http_get :: "nat \<Rightarrow> str \<Rightarrow> http_result"
    \<comment> \<open>\<open>session.get(url, timeout=10)\<close>\<close>
  robots_read :: "nat \<Rightarrow> str \<Rightarrow> policy option"
    \<comment> \<open>\<open>RobotFileParser.read()\<close> on a robots URL; \<open>None\<close> when it raises\<close>
  soup_title :: "str \<Rightarrow> str option"
    \<comment> \<open>\<open>get_text()\<close> of the first \<open>title\<close> tag of the content, if there is one\<close>
  soup_meta :: "str \<Rightarrow> str \<Rightarrow> str \<Rightarrow> str option option"
    \<comment> \<open>\<open>soup.find('meta', attrs={k: v})\<close>: the tag's \<open>content\<close> attribute (\<open>Some None\<close>
       when the tag has none or it is not a string), \<open>None\<close> when there is no such tag\<close>
  soup_get_text :: "str \<Rightarrow> str"
  find_all_href :: "str \<Rightarrow> str list option"
    \<comment> \<open>the \<open>href\<close> values of the anchors of an HTML text, in document order (an empty
       string for a value that is not a string); \<open>None\<close> when the parser raises\<close>
  urljoin :: "str \<Rightarrow> str \<Rightarrow> str option"
    \<comment> \<open>\<open>urllib.parse.urljoin\<close>; \<open>None\<close> when it raises\<close>
  check_bracketed_host :: "str \<Rightarrow> bool"
    \<comment> \<open>urllib's check of a bracketed host returns without raising\<close>
  checknetloc :: "str \<Rightarrow> bool"
    \<comment> \<open>urllib's NFKC check of a netloc that is not ASCII returns without raising\<close>
  strftime :: "nat \<Rightarrow> str"
  unicode_lower :: "str \<Rightarrow> str"
    \<comment> \<open>\<open>str.lower()\<close> on a string that is not all ASCII (Unicode case tables)\<close>
  str_strip :: "str \<Rightarrow> str"
    \<comment> \<open>\<open>str.strip()\<close> (Unicode whitespace tables)\<close>
  set_order :: "str list \<Rightarrow> str \<Rightarrow> int"
    \<comment> \<open>the rank of each element in the iteration order of a set of strings, the set
       given by its elements in the order of insertion\<close>

text \<open>
  \<open>str.lower()\<close>.  On a string of ASCII characters it maps the capitals A to Z to the
  small letters and leaves the rest; on any other string the result is the world's.
\<close>

definition lower :: "world \<Rightarrow> str \<Rightarrow> str" where
  "lower w s = (if isascii s then map lower_char s else unicode_lower w s)"

text \<open>
  Iterating over a Python set visits each element once, in an order that is not the
  program's to choose: the elements are sorted by the rank the world gives them (two
  elements of equal rank stay in the order of insertion).
\<close>

definition set_iter :: "world \<Rightarrow> str list \<Rightarrow> str list" where
  "set_iter w links = sort_key (set_order w links) links"

section \<open>urllib.parse\<close>

definition scheme_chars :: str where
  "scheme_chars = py ''abcdefghijklmnopqrstuvwxyzABCDEFGHIJKLMNOPQRSTUVWXYZ0123456789+-.''"

definition uses_netloc :: "str list" where
  "uses_netloc = [] # map py [''ftp'', ''http'', ''gopher'', ''nntp'', ''telnet'',
     ''imap'', ''wais'', ''file'', ''mms'', ''https'', ''shttp'',
     ''snews'', ''prospero'', ''rtsp'', ''rtsps'', ''rtspu'', ''rsync'',
     ''svn'', ''svn+ssh'', ''sftp'', ''nfs'', ''git'', ''git+ssh'',
     ''ws'', ''wss'']"

definition uses_params :: "str list" where
  "uses_params = [] # map py [''ftp'', ''hdl'', ''prospero'', ''http'', ''imap'',
     ''https'', ''shttp'', ''rtsp'', ''rtsps'', ''rtspu'', ''sip'',
     ''sips'', ''mms'', ''sftp'', ''tel'']"

definition lstrip_c0 :: "str \<Rightarrow> str" where
  "lstrip_c0 s = dropWhile (\<lambda>c. c \<le> 32) s"

definition remove_unsafe :: "str \<Rightarrow> str" where
  "remove_unsafe s = filter (\<lambda>c. c \<notin> set [9, 13, 10]) s"

definition netloc_char :: "codepoint \<Rightarrow> bool" where
  "netloc_char c \<longleftrightarrow> c \<notin> set (py ''/?#'')"

definition splitnetloc :: "str \<Rightarrow> str \<times> str" where
  "splitnetloc u = (takeWhile netloc_char (drop 2 u), dropWhile netloc_char (drop 2 u))"

text \<open>
  \<open>urlsplit(url)\<close>: scheme, netloc, path, query and fragment; \<open>None\<close> when it raises
  ValueError.
\<close>

definition urlsplit :: "world \<Rightarrow> str \<Rightarrow> (str \<times> str \<times> str \<times> str \<times> str) option" where
  "urlsplit w u0 =
     (let u1 = remove_unsafe (lstrip_c0 u0);
          pre = before (cp CHR '':'') u1;
          has_scheme = (cp CHR '':'' \<in> set u1 \<and> pre \<noteq> [] \<and>
                        (ascii_upper (hd pre) \<or> ascii_lower (hd pre)) \<and>
                        list_all (\<lambda>c. c \<in> set scheme_chars) pre);
          sch = (if has_scheme then lower w pre else []);
          u2 = (if has_scheme then after (cp CHR '':'') u1 else u1);
          has_netloc = (take 2 u2 = py ''//'');
          nl = (if has_netloc then fst (splitnetloc u2) else []);
          u3 = (if has_netloc then snd (splitnetloc u2) else u2);
          frag = (if cp CHR ''#'' \<in> set u3 then after (cp CHR ''#'') u3 else []);
          u4 = (if cp CHR ''#'' \<in> set u3 then before (cp CHR ''#'') u3 else u3);
          q = (if cp CHR ''?'' \<in> set u4 then after (cp CHR ''?'') u4 else []);
          u5 = (if cp CHR ''?'' \<in> set u4 then before (cp CHR ''?'') u4 else u4)
      in if has_netloc \<and> ((cp CHR ''['' \<in> set nl \<and> cp CHR '']'' \<notin> set nl) \<or>
                            (cp CHR '']'' \<in> set nl \<and> cp CHR ''['' \<notin> set nl)) then None
         else if has_netloc \<and> cp CHR ''['' \<in> set nl \<and> cp CHR '']'' \<in> set nl \<and>
                 \<not> check_bracketed_host w (before (cp CHR '']'') (after (cp CHR ''['') nl))
         then None
         else if \<not> (nl = [] \<or> isascii nl \<or> checknetloc w nl) then None
         else Some (sch, nl, u5, q, frag))"

definition splitparams :: "str \<Rightarrow> str \<times> str" where
  "splitparams u =
     (if cp CHR ''/'' \<in> set u then
        (let tail = rev (takeWhile (\<lambda>c. c \<noteq> cp CHR ''/'') (rev u));
             front = take (length u - length tail) u
         in if cp CHR '';'' \<in> set tail
            then (front @ before (cp CHR '';'') tail, after (cp CHR '';'') tail)
            else (u, []))
      else (before (cp CHR '';'') u, after (cp CHR '';'') u))"

record parse_result =
  scheme :: str
  netloc :: str
  path :: str
  params :: str
  query :: str
  fragment :: str

definition urlparse :: "world \<Rightarrow> str \<Rightarrow> parse_result option" where
  "urlparse w u0 =
     (case urlsplit w u0 of
        None \<Rightarrow> None
      | Some (sch, nl, u, q, frag) \<Rightarrow>
          (let sp = (if sch \<in> set uses_params \<and> cp CHR '';'' \<in> set u
                     then splitparams u else (u, []))
           in Some \<lparr>scheme = sch, netloc = nl, path = fst sp, params = snd sp,
                     query = q, fragment = frag\<rparr>))"

definition urlunsplit :: "str \<times> str \<times> str \<times> str \<times> str \<Rightarrow> str" where
  "urlunsplit comps =
     (case comps of (sch, nl, u, q, frag) \<Rightarrow>
        (let u1 = (if nl \<noteq> [] \<or> (sch \<noteq> [] \<and> sch \<in> set uses_netloc) \<or> take 2 u = py ''//''
                   then py ''//'' @ nl @
                        (if u \<noteq> [] \<and> take 1 u \<noteq> py ''/'' then py ''/'' @ u else u)
                   else u);
             u2 = (if sch \<noteq> [] then sch @ py '':'' @ u1 else u1);
             u3 = (if q \<noteq> [] then u2 @ py ''?'' @ q else u2)
         in if frag \<noteq> [] then u3 @ py ''#'' @ frag else u3))"

definition urlunparse :: "str \<times> str \<times> str \<times> str \<times> str \<times> str \<Rightarrow> str" where
  "urlunparse comps =
     (case comps of (sch, nl, u, pa, q, frag) \<Rightarrow>
        urlunsplit (sch, nl, if pa \<noteq> [] then u @ py '';'' @ pa else u, q, frag))"

section \<open>The crawler\<close>

datatype error = ValueError

record page_data =
  url :: str
  title :: str
  description :: str
  status_code :: int
  content_length :: nat
  links_found :: nat
  word_matches :: "str \<rightharpoonup> nat"
  timestamp :: str

text \<open>The attributes that \<open>__init__\<close> sets and \<open>crawl\<close> only reads.\<close>

record crawler =
  start_url :: str
  max_depth :: int
  delay :: real
  max_pages :: int
  respect_robots :: bool
  search_words :: "str list"
  start_domain :: str
  allowed_domains :: "str set"

text \<open>
  What happens during a crawl, in order.  \<open>Pop\<close>, \<open>CanFetch\<close> and the depth in \<open>Crawled\<close>
  are bookkeeping of the model; the others are a network request, a sleep or a log line
  of the source.
\<close>

datatype event =
    Pop str int       \<comment> \<open>\<open>crawl_queue.popleft()\<close> gave this entry\<close>
  | Fetching str      \<comment> \<open>\<open>_fetch_page(url)\<close> was entered\<close>
  | RobotsRead str    \<comment> \<open>\<open>rp.read()\<close> requested this robots URL\<close>
  | CanFetch str bool \<comment> \<open>what \<open>_can_fetch(url)\<close> answered to \<open>_fetch_page\<close>\<close>
  | Get str           \<comment> \<open>\<open>session.get(url)\<close> was issued\<close>
  | Crawled str int   \<comment> \<open>the page of this entry was appended to \<open>crawled_data\<close>\<close>
  | Sleep real        \<comment> \<open>\<open>time.sleep(delay)\<close> returned\<close>

text \<open>
  The mutable attributes of the crawler, the two locals of \<open>crawl\<close> and the exception, if
  any, that has left the loop.
\<close>

record state =
  crawl_queue :: "(str \<times> int) list"
  pages_crawled :: int
  visited_urls :: "str set"
  crawled_data :: "page_data list"
  robots_cache :: "str \<rightharpoonup> policy"
  events :: "event list"
  raised :: "error option"

definition log :: "event \<Rightarrow> state \<Rightarrow> state" where
  "log e s = s\<lparr>events := events s @ [e]\<rparr>"

definition user_agent :: str where
  "user_agent = py ''WebCrawler/1.0 (+https://example.com/crawler)''"

definition has_scheme_prefix :: "str \<Rightarrow> bool" where
  "has_scheme_prefix u \<longleftrightarrow> startswith u (py ''http://'') \<or> startswith u (py ''https://'')"

definition normalize_url :: "world \<Rightarrow> str \<Rightarrow> str option" where
  "normalize_url w u0 =
     (let u = (if \<not> has_scheme_prefix u0 then py ''https://'' @ u0 else u0)
      in case urlparse w u of
           None \<Rightarrow> None
         | Some parsed \<Rightarrow>
             Some (urlunparse (scheme parsed, lower w (netloc parsed), path parsed,
                               params parsed, query parsed, [])))"

text \<open>
  \<open>__init__\<close>; \<open>None\<close> when normalising or parsing the seed raises.  The optional arguments
  are \<open>None\<close> when not given.
\<close>

definition WebCrawler ::
  "world \<Rightarrow> str \<Rightarrow> int \<Rightarrow> real \<Rightarrow> int \<Rightarrow> bool \<Rightarrow> str list option \<Rightarrow> str list option
     \<Rightarrow> crawler option" where
  "WebCrawler w start_url0 max_depth0 delay0 max_pages0 respect_robots0 allowed_domains0 search_words0 =
     (case normalize_url w start_url0 of
        None \<Rightarrow> None
      | Some su \<Rightarrow>
          (case urlparse w su of
             None \<Rightarrow> None
           | Some parsed_start \<Rightarrow>
               Some \<lparr>start_url = su, max_depth = max_depth0, delay = delay0,
                      max_pages = max_pages0, respect_robots = respect_robots0,
                      search_words = (case search_words0 of
                                        None \<Rightarrow> []
                                      | Some ws \<Rightarrow> map (lower w) ws),
                      start_domain = netloc parsed_start,
                      allowed_domains = (case allowed_domains0 of
                                           None \<Rightarrow> {netloc parsed_start}
                                         | Some ds \<Rightarrow> set ds)\<rparr>))"

definition skip_extensions :: "str list" where
  "skip_extensions = map py
     [''.pdf'', ''.doc'', ''.docx'', ''.xls'', ''.xlsx'', ''.ppt'', ''.pptx'',
      ''.zip'', ''.tar'', ''.gz'', ''.rar'', ''.exe'', ''.dmg'',
      ''.jpg'', ''.jpeg'', ''.png'', ''.gif'', ''.bmp'', ''.svg'',
      ''.mp3'', ''.mp4'', ''.avi'', ''.mov'', ''.wmv'',
      ''.css'', ''.js'', ''.xml'', ''.rss'', ''.json'']"

definition is_valid_url :: "world \<Rightarrow> crawler \<Rightarrow> str \<Rightarrow> bool" where
  "is_valid_url w c u =
     (case urlparse w u of
        None \<Rightarrow> False
      | Some parsed \<Rightarrow>
          if scheme parsed \<notin> set [py ''http'', py ''https''] then False
          else if netloc parsed \<notin> allowed_domains c then False
          else if list_ex (\<lambda>ext. endswith (lower w (path parsed)) ext) skip_extensions then False
          else True)"

text \<open>
  \<open>_can_fetch\<close>.  An exception of \<open>rp.read()\<close> is caught by the inner handler, which answers
  \<open>True\<close> and stores nothing; any other exception is caught by the outer one.
\<close>

definition can_fetch :: "world \<Rightarrow> crawler \<Rightarrow> state \<Rightarrow> str \<Rightarrow> bool \<times> state" where
  "can_fetch w c s u =
     (if \<not> respect_robots c then (True, s)
      else case urlparse w u of
             None \<Rightarrow> (True, s)
           | Some parsed \<Rightarrow>
               (let domain = netloc parsed in
                case robots_cache s domain of
                  Some rp \<Rightarrow> (case rp user_agent u of None \<Rightarrow> True | Some b \<Rightarrow> b, s)
                | None \<Rightarrow>
                    (let robots_url = scheme parsed @ py ''://'' @ domain @ py ''/robots.txt'';
                         s1 = log (RobotsRead robots_url) s
                     in case robots_read w (length (events s)) robots_url of
                          None \<Rightarrow> (True, s1)
                        | Some rp \<Rightarrow>
                            (case rp user_agent u of None \<Rightarrow> True | Some b \<Rightarrow> b,
                             s1\<lparr>robots_cache := (robots_cache s1)(domain \<mapsto> rp)\<rparr>))))"

text \<open>The URL of the robots file of a parsed URL, as \<open>_can_fetch\<close> builds it.\<close>

definition robots_url_of :: "parse_result \<Rightarrow> str" where
  "robots_url_of parsed = scheme parsed @ py ''://'' @ netloc parsed @ py ''/robots.txt''"

text \<open>
  \<open>_extract_links\<close>.  The links are a Python set, kept here as the list of its elements
  in the order of their first insertion.  An exception in the loop ends it with the
  links collected so far.
\<close>

definition set_add :: "str \<Rightarrow> str list \<Rightarrow> str list" where
  "set_add x links = (if x \<in> set links then links else links @ [x])"

fun extract_loop :: "world \<Rightarrow> crawler \<Rightarrow> str \<Rightarrow> str list \<Rightarrow> str list \<Rightarrow> str list" where
  "extract_loop w c base_url [] links = links"
| "extract_loop w c base_url (href # hrefs) links =
     (if href = [] then extract_loop w c base_url hrefs links
      else case urljoin w base_url href of
             None \<Rightarrow> links
           | Some absolute_url \<Rightarrow>
               (case normalize_url w absolute_url of
                  None \<Rightarrow> links
                | Some normalized_url \<Rightarrow>
                    if is_valid_url w c normalized_url
                    then extract_loop w c base_url hrefs (set_add normalized_url links)
                    else extract_loop w c base_url hrefs links))"

definition extract_links :: "world \<Rightarrow> crawler \<Rightarrow> str \<Rightarrow> str \<Rightarrow> str list" where
  "extract_links w c html_content base_url =
     (case find_all_href w html_content of
        None \<Rightarrow> []
      | Some hrefs \<Rightarrow> extract_loop w c base_url hrefs [])"

definition search_content :: "world \<Rightarrow> crawler \<Rightarrow> str \<Rightarrow> (str \<rightharpoonup> nat)" where
  "search_content w c text_content =
     (if search_words c = [] then Map.empty
      else (let text_lower = lower w text_content
            in fold (\<lambda>word word_counts. word_counts(word \<mapsto> str_count text_lower word))
                 (search_words c) Map.empty))"

text \<open>
  \<open>_fetch_page\<close>: the page record and its links, or \<open>None\<close>.  \<open>raise_for_status\<close> raises on
  a status from 400 to 599; every exception ends in \<open>return None\<close>.
\<close>

definition fetch_page ::
  "world \<Rightarrow> crawler \<Rightarrow> state \<Rightarrow> str \<Rightarrow> (page_data \<times> str list) option \<times> state" where
  "fetch_page w c s u =
     (let s0 = log (Fetching u) s;
          allowed = fst (can_fetch w c s0 u);
          s1 = log (CanFetch u allowed) (snd (can_fetch w c s0 u))
      in if \<not> allowed then (None, s1)
         else (let s2 = log (Get u) s1 in
               case http_get w (length (events s1)) u of
                 Timeout \<Rightarrow> (None, s2)
               | ConnectionError \<Rightarrow> (None, s2)
               | OtherException \<Rightarrow> (None, s2)
               | Response r \<Rightarrow>
                   if 400 \<le> resp_status_code r \<and> resp_status_code r < 600 then (None, s2)
                   else if \<not> contains (py ''text/html'')
                                (lower w (case resp_content_type r of None \<Rightarrow> [] | Some t \<Rightarrow> t))
                   then (None, s2)
                   else (let title0 = (case soup_title w (resp_content r) of
                                         None \<Rightarrow> [] | Some t \<Rightarrow> str_strip w t);
                             meta_desc = (case soup_meta w (resp_content r)
                                                 (py ''name'') (py ''description'') of
                                            Some m \<Rightarrow> Some m
                                          | None \<Rightarrow> soup_meta w (resp_content r)
                                                      (py ''property'') (py ''og:description''));
                             description0 = (case meta_desc of
                                               Some (Some content) \<Rightarrow>
                                                 if content \<noteq> [] then str_strip w content else []
                                             | _ \<Rightarrow> []);
                             page_text = soup_get_text w (resp_content r);
                             word_counts = search_content w c page_text;
                             links = extract_links w c (resp_text r) u;
                             page = \<lparr>url = u, title = title0, description = description0,
                                     status_code = resp_status_code r,
                                     content_length = length (resp_content r),
                                     links_found = length links,
                                     word_matches = word_counts,
                                     timestamp = strftime w (length (events s2))\<rparr>
                         in (Some (page, links), s2))))"

text \<open>\<open>time.sleep\<close> raises ValueError on a negative argument.\<close>

definition sleep :: "real \<Rightarrow> state \<Rightarrow> state" where
  "sleep d s = (if d < 0 then s\<lparr>raised := Some ValueError\<rparr> else log (Sleep d) s)"

text \<open>One pass through the body of the \<open>while\<close> loop of \<open>crawl\<close>.\<close>

definition crawl_body :: "world \<Rightarrow> crawler \<Rightarrow> state \<Rightarrow> state" where
  "crawl_body w c s =
     (case crawl_queue s of
        [] \<Rightarrow> s
      | (current_url, depth) # rest \<Rightarrow>
          (let s1 = log (Pop current_url depth) (s\<lparr>crawl_queue := rest\<rparr>) in
           if current_url \<in> visited_urls s1 then s1
           else if depth > max_depth c then s1
           else (let s2 = s1\<lparr>visited_urls := insert current_url (visited_urls s1)\<rparr>;
                     result = fst (fetch_page w c s2 current_url);
                     s3 = snd (fetch_page w c s2 current_url);
                     s4 = (case result of
                             None \<Rightarrow> s3
                           | Some (data, links) \<Rightarrow>
                               (let s5 = log (Crawled current_url depth)
                                           (s3\<lparr>crawled_data := crawled_data s3 @ [data],
                                               pages_crawled := pages_crawled s3 + 1\<rparr>)
                                in if depth < max_depth c
                                   then s5\<lparr>crawl_queue := crawl_queue s5 @
                                            map (\<lambda>link. (link, depth + 1))
                                              (filter (\<lambda>link. link \<notin> visited_urls s5)
                                                 (set_iter w links))\<rparr>
                                   else s5))
                 in if crawl_queue s4 \<noteq> [] then sleep (delay c) s4 else s4)))"

definition running :: "crawler \<Rightarrow> state \<Rightarrow> bool" where
  "running c s \<longleftrightarrow> raised s = None \<and> crawl_queue s \<noteq> [] \<and> pages_crawled s < max_pages c"

text \<open>
  The loop ends: a pass either counts one more page towards \<open>max_pages\<close> or leaves the
  count as it is and the queue one entry shorter.
\<close>

lemma can_fetch_fields:
  "crawl_queue (snd (can_fetch w c s u)) = crawl_queue s"
  "pages_crawled (snd (can_fetch w c s u)) = pages_crawled s"
  "visited_urls (snd (can_fetch w c s u)) = visited_urls s"
  "crawled_data (snd (can_fetch w c s u)) = crawled_data s"
  "raised (snd (can_fetch w c s u)) = raised s"
  by (simp_all add: can_fetch_def log_def Let_def split: option.splits)

lemma fetch_page_fields:
  "crawl_queue (snd (fetch_page w c s u)) = crawl_queue s"
  "pages_crawled (snd (fetch_page w c s u)) = pages_crawled s"
  "visited_urls (snd (fetch_page w c s u)) = visited_urls s"
  "crawled_data (snd (fetch_page w c s u)) = crawled_data s"
  "raised (snd (fetch_page w c s u)) = raised s"
  by (simp_all add: fetch_page_def log_def Let_def can_fetch_fields split: http_result.splits)

lemma crawl_body_measure:
  assumes "running c s"
  shows "(pages_crawled (crawl_body w c s) = pages_crawled s + 1) \<or>
         (pages_crawled (crawl_body w c s) = pages_crawled s \<and>
          length (crawl_queue (crawl_body w c s)) < length (crawl_queue s))"
  using assms
  by (cases "crawl_queue s")
     (auto simp: running_def crawl_body_def log_def Let_def sleep_def fetch_page_fields
           split: option.splits prod.splits)

function crawl_loop :: "world \<Rightarrow> crawler \<Rightarrow> state \<Rightarrow> state" where
  "crawl_loop w c s = (if running c s then crawl_loop w c (crawl_body w c s) else s)"
  by pat_completeness auto
termination
proof (relation "measures [\<lambda>(w, c, s). nat (max_pages c - pages_crawled s),
                           \<lambda>(w, c, s). length (crawl_queue s)]")
  show "wf (measures [\<lambda>(w, c, s). nat (max_pages c - pages_crawled s),
                      \<lambda>(w, c, s). length (crawl_queue s)])"
    by simp
next
  fix w c s
  assume r: "running c s"
  then have "pages_crawled s < max_pages c"
    by (simp add: running_def)
  with crawl_body_measure[OF r, of w]
  show "((w, c, crawl_body w c s), (w, c, s))
          \<in> measures [\<lambda>(w, c, s). nat (max_pages c - pages_crawled s),
                       \<lambda>(w, c, s). length (crawl_queue s)]"
    by auto
qed

text \<open>The state in which \<open>crawl\<close> enters its loop on a crawler fresh from \<open>__init__\<close>.\<close>

definition initial_state :: "crawler \<Rightarrow> state" where
  "initial_state c =
     \<lparr>crawl_queue = [(start_url c, 0)], pages_crawled = 0, visited_urls = {},
      crawled_data = [], robots_cache = Map.empty, events = [], raised = None\<rparr>"

definition final_state :: "world \<Rightarrow> crawler \<Rightarrow> state" where
  "final_state w c = crawl_loop w c (initial_state c)"

definition crawl :: "world \<Rightarrow> crawler \<Rightarrow> error + page_data list" where
  "crawl w c =
     (case raised (final_state w c) of
        Some e \<Rightarrow> Inl e
      | None \<Rightarrow> Inr (crawled_data (final_state w c)))"

subsection \<open>Reading the events\<close>

fun pops :: "event list \<Rightarrow> (str \<times> int) list" where
  "pops [] = []"
| "pops (Pop u d # es) = (u, d) # pops es"
| "pops (e # es) = pops es"

fun fetch_attempts :: "event list \<Rightarrow> str list" where
  "fetch_attempts [] = []"
| "fetch_attempts (Fetching u # es) = u # fetch_attempts es"
| "fetch_attempts (e # es) = fetch_attempts es"

fun gets :: "event list \<Rightarrow> str list" where
  "gets [] = []"
| "gets (Get u # es) = u # gets es"
| "gets (e # es) = gets es"

fun robots_reads :: "event list \<Rightarrow> str list" where
  "robots_reads [] = []"
| "robots_reads (RobotsRead u # es) = u # robots_reads es"
| "robots_reads (e # es) = robots_reads es"

fun crawled :: "event list \<Rightarrow> (str \<times> int) list" where
  "crawled [] = []"
| "crawled (Crawled u d # es) = (u, d) # crawled es"
| "crawled (e # es) = crawled es"

fun sleeps :: "event list \<Rightarrow> real list" where
  "sleeps [] = []"
| "sleeps (Sleep d # es) = d # sleeps es"
| "sleeps (e # es) = sleeps es"

fun can_fetches :: "event list \<Rightarrow> (str \<times> bool) list" where
  "can_fetches [] = []"
| "can_fetches (CanFetch u b # es) = (u, b) # can_fetches es"
| "can_fetches (e # es) = can_fetches es"

subsection \<open>Occurrences of a term, in the words of the specification\<close>

text \<open>
  Two characters are the same letter, case ignored, when they are equal or one is an
  ASCII capital and the other the small letter that belongs to it.  A term occurs at the
  front of a text when the text is long enough and agrees with the term letter by
  letter, case ignored.  Occurrences are counted from the left, and the scan continues
  behind an occurrence, so counted occurrences do not overlap.
\<close>

definition same_letter :: "codepoint \<Rightarrow> codepoint \<Rightarrow> bool" where
  "same_letter a b \<longleftrightarrow> a = b \<or> (ascii_upper a \<and> b = a + 32) \<or> (ascii_upper b \<and> a = b + 32)"

definition occurs_in_front :: "str \<Rightarrow> str \<Rightarrow> bool" where
  "occurs_in_front w s \<longleftrightarrow>
     length w \<le> length s \<and> list_all2 same_letter w (take (length w) s)"

function occurrence_count :: "str \<Rightarrow> str \<Rightarrow> nat" where
  "occurrence_count w s =
     (if w = [] then Suc (length s)
      else if length s < length w then 0
      else if occurs_in_front w s then Suc (occurrence_count w (drop (length w) s))
      else occurrence_count w (tl s))"
  by pat_completeness auto
termination
proof (relation "measure (\<lambda>(w, s). length s)")
  show "wf (measure (\<lambda>(w, s). length s))" by simp
next
  fix w s :: str
  assume "w \<noteq> []" "\<not> length s < length w"
  then have "0 < length w" "0 < length s" by auto
  then show "((w, drop (length w) s), (w, s)) \<in> measure (\<lambda>(w, s). length s)" by simp
next
  fix w s :: str
  assume "w \<noteq> []" "\<not> length s < length w"
  then have "s \<noteq> []" by auto
  then show "((w, tl s), (w, s)) \<in> measure (\<lambda>(w, s). length s)" by (cases s) simp_all
qed

subsection \<open>The parts of one pass\<close>

text \<open>
  The states between the steps of one pass through the loop body: after the entry is
  taken from the queue, after the URL is marked as visited, after a page is stored and
  its links are queued, and after the delay.
\<close>

definition dequeued :: "state \<Rightarrow> str \<Rightarrow> int \<Rightarrow> (str \<times> int) list \<Rightarrow> state" where
  "dequeued s u d rest = log (Pop u d) (s\<lparr>crawl_queue := rest\<rparr>)"

definition marked :: "state \<Rightarrow> str \<Rightarrow> int \<Rightarrow> (str \<times> int) list \<Rightarrow> state" where
  "marked s u d rest = (dequeued s u d rest)\<lparr>visited_urls := insert u (visited_urls s)\<rparr>"

definition stored ::
  "world \<Rightarrow> crawler \<Rightarrow> state \<Rightarrow> str \<Rightarrow> int \<Rightarrow> page_data \<Rightarrow> str list \<Rightarrow> state" where
  "stored w c s3 u d p links =
     (let s5 = log (Crawled u d)
                 (s3\<lparr>crawled_data := crawled_data s3 @ [p], pages_crawled := pages_crawled s3 + 1\<rparr>)
      in if d < max_depth c
         then s5\<lparr>crawl_queue := crawl_queue s5 @
                  map (\<lambda>link. (link, d + 1))
                    (filter (\<lambda>link. link \<notin> visited_urls s5) (set_iter w links))\<rparr>
         else s5)"

definition paused :: "crawler \<Rightarrow> state \<Rightarrow> state" where
  "paused c s4 = (if crawl_queue s4 \<noteq> [] then sleep (delay c) s4 else s4)"

subsection \<open>Worlds for examples\<close>

text \<open>
  Python's \<open>str.lower()\<close> at three Greek strings: a capital sigma at the end of a word
  becomes the final small sigma (code point 962), a capital sigma standing alone becomes
  the small sigma (963), and a string of small letters stays as it is.  (913 and 931
  are the capitals alpha and sigma, 945 and 963 the small letters.)
\<close>

definition greek_lower :: "str \<Rightarrow> str" where
  "greek_lower s =
     (if s = [913, 931] then [945, 962]
      else if s = [931] then [963]
      else s)"

text \<open>No server answers, no page has links, and joining keeps an absolute reference.\<close>

definition offline_world :: world where
  "offline_world =
     \<lparr>http_get = (\<lambda>t u. ConnectionError), robots_read = (\<lambda>t u. None),
      soup_title = (\<lambda>x. None), soup_meta = (\<lambda>x k v. None), soup_get_text = (\<lambda>x. x),
      find_all_href = (\<lambda>x. Some []), urljoin = (\<lambda>b h. Some h),
      check_bracketed_host = (\<lambda>n. True), checknetloc = (\<lambda>n. True),
      strftime = (\<lambda>t. []), unicode_lower = greek_lower, str_strip = (\<lambda>s. s),
      set_order = (\<lambda>links l. 0)\<rparr>"

text \<open>
  A small site: the seed page links to three pages of the site, to a page of another
  host and to an image; page \<open>a\<close> links back to \<open>b\<close>, \<open>c\<close> and the seed; the server fails on
  \<open>b\<close>; the robots policy of the host disallows \<open>a\<close>.  A page's text is the list of its
  references, separated by spaces.  The links of a page are visited in the order of
  insertion.
\<close>

definition seed_url :: str where
  "seed_url = py ''https://example.com''"

definition page_a :: str where
  "page_a = py ''https://example.com/a''"

definition page_b :: str where
  "page_b = py ''https://example.com/b''"

definition page_c :: str where
  "page_c = py ''https://example.com/c''"

definition html_page :: "string list \<Rightarrow> http_result" where
  "html_page hrefs =
     Response \<lparr>resp_status_code = 200,
               resp_content_type = Some (py ''text/html; charset=utf-8''),
               resp_content = py ''Cat cat CATs'',
               resp_text = concat (map (\<lambda>h. py h @ py '' '') hrefs)\<rparr>"

fun split_spaces :: "str \<Rightarrow> str \<Rightarrow> str list" where
  "split_spaces acc [] = (if acc = [] then [] else [acc])"
| "split_spaces acc (x # xs) =
     (if x = 32 then (if acc = [] then split_spaces [] xs else acc # split_spaces [] xs)
      else split_spaces (acc @ [x]) xs)"

definition site_world :: world where
  "site_world =
     \<lparr>http_get = (\<lambda>t u.
        if u = seed_url then
          html_page [''https://example.com/a'', ''https://example.com/b'',
                     ''https://example.com/c'', ''https://other.org/x'',
                     ''https://example.com/logo.png'']
        else if u = page_a then
          html_page [''https://Example.com/b#top'', ''https://example.com/c'',
                     ''https://example.com'']
        else if u = page_b then
          Response \<lparr>resp_status_code = 500, resp_content_type = None,
                    resp_content = [], resp_text = []\<rparr>
        else if u = page_c then html_page []
        else ConnectionError),
      robots_read = (\<lambda>t r. Some (\<lambda>agent u. Some (u \<noteq> page_a))),
      soup_title = (\<lambda>x. Some (py '' Example '')), soup_meta = (\<lambda>x k v. None),
      soup_get_text = (\<lambda>x. x),
      find_all_href = (\<lambda>x. Some (split_spaces [] x)), urljoin = (\<lambda>b h. Some h),
      check_bracketed_host = (\<lambda>n. True), checknetloc = (\<lambda>n. True),
      strftime = (\<lambda>t. py ''2024-01-01 00:00:00''), unicode_lower = greek_lower,
      str_strip = (\<lambda>s. s), set_order = (\<lambda>links l. 0)\<rparr>"

text \<open>The crawler that \<open>__init__\<close> makes for the seed \<open>example.com\<close> and the term \<open>Cat\<close>.\<close>

definition site_crawler :: "bool \<Rightarrow> int \<Rightarrow> crawler" where
  "site_crawler rr mp =
     \<lparr>start_url = seed_url, max_depth = 2, delay = 1, max_pages = mp,
      respect_robots = rr, search_words = [py ''cat''], start_domain = py ''example.com'',
      allowed_domains = {py ''example.com''}\<rparr>"


section \<open>Strings: basic facts\<close>

lemma lower_ascii: "isascii s \<Longrightarrow> lower w s = map lower_char s"
  by (simp add: lower_def)

lemma isascii_lower_char: "isascii s \<Longrightarrow> isascii (map lower_char s)"
  by (induction s) (auto simp: isascii_def lower_char_def ascii_upper_def)

text \<open>Folding the capitals identifies exactly the characters that are the same letter.\<close>

lemma lower_char_same: "lower_char a = lower_char b \<longleftrightarrow> same_letter a b"
  by (auto simp: lower_char_def same_letter_def ascii_upper_def)

lemma set_set_iter [simp]: "set (set_iter w links) = set links"
  by (simp add: set_iter_def)

section \<open>The content searcher\<close>

declare count_from.simps [simp del]
declare occurrence_count.simps [simp del]

lemma occurs_in_front_lower:
  "occurs_in_front w s \<longleftrightarrow>
     length w \<le> length s \<and> take (length w) (map lower_char s) = map lower_char w"
proof -
  have "list_all2 same_letter xs ys \<longleftrightarrow> map lower_char xs = map lower_char ys" for xs ys
    by (induction xs arbitrary: ys) (auto simp: list_all2_Cons1 lower_char_same)
  then show ?thesis
    by (auto simp: occurs_in_front_def take_map)
qed

lemma count_from_lower:
  "w \<noteq> [] \<Longrightarrow> count_from (map lower_char w) (map lower_char s) = occurrence_count w s"
proof (induction w s rule: occurrence_count.induct)
  case (1 w s)
  show ?case
  proof (cases "length s < length w")
    case True
    with 1 show ?thesis
      by (subst count_from.simps, subst occurrence_count.simps) simp
  next
    case False
    with 1 show ?thesis
      by (subst count_from.simps, subst occurrence_count.simps)
         (auto simp: occurs_in_front_lower drop_map map_tl)
  qed
qed

lemma str_count_lower:
  "str_count (map lower_char s) (map lower_char w) = occurrence_count w s"
proof (cases "w = []")
  case True
  then show ?thesis by (subst occurrence_count.simps) (simp add: str_count_def)
next
  case False
  then show ?thesis
    by (simp add: str_count_def count_from_lower)
qed

lemma fold_upd:
  "fold (\<lambda>word word_counts. word_counts(word \<mapsto> f word)) ws m =
     (\<lambda>k. if k \<in> set ws then Some (f k) else m k)"
  by (induction ws arbitrary: m) (auto simp: fun_eq_iff)

lemma search_content_eq:
  "search_content w c text_content =
     (\<lambda>k. if k \<in> set (search_words c) then Some (str_count (lower w text_content) k) else None)"
  by (cases "search_words c = []") (simp_all add: search_content_def Let_def fold_upd)

lemma WebCrawler_search_words:
  assumes "WebCrawler w su md dl mp rr ad sw = Some c"
  shows "search_words c = (case sw of None \<Rightarrow> [] | Some ws \<Rightarrow> map (lower w) ws)"
  using assms by (auto simp: WebCrawler_def split: option.splits)

text \<open>
  C9, as amended.  For a crawler made by \<open>__init__\<close> the content searcher maps exactly the
  configured terms, lowered by \<open>str.lower()\<close>, each to the number of its non-overlapping
  occurrences in the lowered text; with no list of terms (or an empty one) the mapping
  is empty.  When the term and the text are ASCII, this number is the number of
  non-overlapping occurrences of the term in the text, letter case ignored, counted
  from the left.
\<close>

theorem search_content_counts:
  assumes "WebCrawler w su md dl mp rr ad sw = Some c"
  shows "search_content w c text_content =
           (case sw of
              None \<Rightarrow> Map.empty
            | Some ws \<Rightarrow>
                (\<lambda>k. if k \<in> set (map (lower w) ws)
                     then Some (str_count (lower w text_content) k) else None)) \<and>
         (\<forall>ws k0. sw = Some ws \<and> k0 \<in> set ws \<and> isascii k0 \<and> isascii text_content \<longrightarrow>
            search_content w c text_content (map lower_char k0) =
              Some (occurrence_count k0 text_content))"
proof -
  note sw = WebCrawler_search_words[OF assms]
  have general: "search_content w c text_content =
           (case sw of
              None \<Rightarrow> Map.empty
            | Some ws \<Rightarrow>
                (\<lambda>k. if k \<in> set (map (lower w) ws)
                     then Some (str_count (lower w text_content) k) else None))"
    using sw by (cases sw) (simp_all add: search_content_eq)
  have ascii: "search_content w c text_content (map lower_char k0) =
                 Some (occurrence_count k0 text_content)"
    if "sw = Some ws" "k0 \<in> set ws" "isascii k0" "isascii text_content" for ws k0
  proof -
    from that(3) have k: "lower w k0 = map lower_char k0" by (rule lower_ascii)
    from that(1,2) sw k have "map lower_char k0 \<in> set (search_words c)" by force
    then have "search_content w c text_content (map lower_char k0) =
                 Some (str_count (lower w text_content) (map lower_char k0))"
      by (simp add: search_content_eq)
    also have "lower w text_content = map lower_char text_content"
      using that(4) by (rule lower_ascii)
    finally show ?thesis by (simp add: str_count_lower)
  qed
  from general ascii show ?thesis by blast
qed

text \<open>The example of the specification: ``cat'' occurs three times in ``Cat cat CATs''.\<close>

theorem search_content_counts_witness:
  "WebCrawler offline_world (py ''example.com'') 2 1 100 True None (Some [py ''Cat'']) \<noteq> None \<and>
   isascii (py ''Cat'') \<and> isascii (py ''Cat cat CATs'') \<and>
   search_content offline_world
     (the (WebCrawler offline_world (py ''example.com'') 2 1 100 True None (Some [py ''Cat''])))
     (py ''Cat cat CATs'') (py ''cat'') = Some 3 \<and>
   search_content offline_world
     (the (WebCrawler offline_world (py ''example.com'') 2 1 100 True None (Some [py ''Cat''])))
     (py ''Cat cat CATs'') (py ''dog'') = None"
proof -
  let ?c = "the (WebCrawler offline_world (py ''example.com'') 2 1 100 True None (Some [py ''Cat'']))"
  have made: "WebCrawler offline_world (py ''example.com'') 2 1 100 True None (Some [py ''Cat'']) \<noteq> None"
    by code_simp
  then have eq: "WebCrawler offline_world (py ''example.com'') 2 1 100 True None (Some [py ''Cat''])
                   = Some ?c"
    by simp
  have a1: "isascii (py ''Cat'')" and a2: "isascii (py ''Cat cat CATs'')"
    by code_simp+
  have l: "map lower_char (py ''Cat'') = py ''cat''"
    by code_simp
  have l2: "lower offline_world (py ''Cat'') = py ''cat''"
    by code_simp
  have n: "occurrence_count (py ''Cat'') (py ''Cat cat CATs'') = 3"
    by code_simp
  have d: "py ''dog'' \<noteq> py ''cat''"
    by code_simp
  note t = search_content_counts[OF eq, of "py ''Cat cat CATs''"]
  from conjunct1[OF t]
  have general: "search_content offline_world ?c (py ''Cat cat CATs'') =
                   (\<lambda>k. if k \<in> set (map (lower offline_world) [py ''Cat''])
                        then Some (str_count (lower offline_world (py ''Cat cat CATs'')) k)
                        else None)"
    by simp
  from conjunct2[OF t] a1 a2
  have "search_content offline_world ?c (py ''Cat cat CATs'') (map lower_char (py ''Cat'')) =
          Some (occurrence_count (py ''Cat'') (py ''Cat cat CATs''))"
    by simp
  then have cat: "search_content offline_world ?c (py ''Cat cat CATs'') (py ''cat'') = Some 3"
    by (simp only: l n)
  have dog: "search_content offline_world ?c (py ''Cat cat CATs'') (py ''dog'') = None"
    by (subst general) (simp add: l2 d)
  from made a1 a2 cat dog show ?thesis
    by blast
qed

text \<open>
  The claim fails beyond ASCII: the term is a capital sigma and the text is a capital
  alpha followed by a capital sigma.  The term occurs in the text, yet the count for it
  is 0, because \<open>str.lower()\<close> turns the sigma of the text into a final sigma and the
  sigma of the term into a plain one.
\<close>

theorem search_content_counts_counterexample:
  "search_content offline_world
     (the (WebCrawler offline_world (py ''example.com'') 2 1 100 True None (Some [[931]])))
     [913, 931] (lower offline_world [931]) = Some 0 \<and>
   occurrence_count [931] [913, 931] = 1"
  by code_simp

section \<open>One pass through the loop\<close>

declare crawl_loop.simps [simp del]

lemma pops_append: "pops (a @ b) = pops a @ pops b"
  by (induction a rule: pops.induct) auto
lemma fetch_attempts_append: "fetch_attempts (a @ b) = fetch_attempts a @ fetch_attempts b"
  by (induction a rule: fetch_attempts.induct) auto
lemma gets_append: "gets (a @ b) = gets a @ gets b"
  by (induction a rule: gets.induct) auto
lemma robots_reads_append: "robots_reads (a @ b) = robots_reads a @ robots_reads b"
  by (induction a rule: robots_reads.induct) auto
lemma crawled_append: "crawled (a @ b) = crawled a @ crawled b"
  by (induction a rule: crawled.induct) auto
lemma sleeps_append: "sleeps (a @ b) = sleeps a @ sleeps b"
  by (induction a rule: sleeps.induct) auto
lemma can_fetches_append: "can_fetches (a @ b) = can_fetches a @ can_fetches b"
  by (induction a rule: can_fetches.induct) auto

lemmas proj_append = pops_append fetch_attempts_append gets_append robots_reads_append
  crawled_append sleeps_append can_fetches_append

lemma can_fetch_events:
  "\<exists>rs. events (snd (can_fetch w c s u)) = events s @ map RobotsRead rs"
proof (cases "events (snd (can_fetch w c s u)) = events s")
  case True
  then have "events (snd (can_fetch w c s u)) = events s @ map RobotsRead []" by simp
  then show ?thesis by blast
next
  case False
  then obtain r where "events (snd (can_fetch w c s u)) = events s @ [RobotsRead r]"
    by (auto simp: can_fetch_def log_def Let_def split: option.splits if_splits)
  then have "events (snd (can_fetch w c s u)) = events s @ map RobotsRead [r]" by simp
  then show ?thesis by blast
qed

lemma proj_robots [simp]:
  "pops (map RobotsRead rs) = []" "fetch_attempts (map RobotsRead rs) = []"
  "gets (map RobotsRead rs) = []" "crawled (map RobotsRead rs) = []"
  "sleeps (map RobotsRead rs) = []" "can_fetches (map RobotsRead rs) = []"
  by (induction rs) auto

text \<open>What one call of fetch_page adds to the events, and what it returns.\<close>

lemma fetch_page_events:
  "\<exists>rs b. events (snd (fetch_page w c s u)) =
            events s @ Fetching u # map RobotsRead rs @ CanFetch u b # (if b then [Get u] else []) \<and>
          (fst (fetch_page w c s u) \<noteq> None \<longrightarrow> b)"
proof -
  let ?s0 = "log (Fetching u) s"
  obtain rs where rs: "events (snd (can_fetch w c ?s0 u)) = events ?s0 @ map RobotsRead rs"
    using can_fetch_events by blast
  let ?b = "fst (can_fetch w c ?s0 u)"
  have "events (snd (fetch_page w c s u)) =
          events s @ Fetching u # map RobotsRead rs @ CanFetch u ?b # (if ?b then [Get u] else [])"
    using rs by (simp add: fetch_page_def log_def Let_def split: http_result.splits)
  moreover have "fst (fetch_page w c s u) \<noteq> None \<longrightarrow> ?b"
    by (simp add: fetch_page_def Let_def)
  ultimately show ?thesis by blast
qed

lemma fetch_page_result:
  assumes "fst (fetch_page w c s u) = Some (p, links)"
  shows "url p = u"
    and "\<exists>text_content. word_matches p = search_content w c text_content"
    and "\<exists>html. links = extract_links w c html u"
    and "links_found p = length links"
  using assms
  by (auto simp: fetch_page_def Let_def split: if_splits http_result.splits)


lemma log_fields [simp]:
  "crawl_queue (log e s) = crawl_queue s"
  "pages_crawled (log e s) = pages_crawled s"
  "visited_urls (log e s) = visited_urls s"
  "crawled_data (log e s) = crawled_data s"
  "robots_cache (log e s) = robots_cache s"
  "raised (log e s) = raised s"
  "events (log e s) = events s @ [e]"
  by (simp_all add: log_def)

lemma crawl_body_cases [consumes 1, case_names skip fail success]:
  assumes q: "crawl_queue s = (u, d) # rest"
  obtains
    (skip) "u \<in> visited_urls s \<or> d > max_depth c"
           "crawl_body w c s = dequeued s u d rest"
  | (fail) s3 where "u \<notin> visited_urls s" "d \<le> max_depth c"
           "fetch_page w c (marked s u d rest) u = (None, s3)"
           "crawl_body w c s = paused c s3"
  | (success) s3 p links where "u \<notin> visited_urls s" "d \<le> max_depth c"
           "fetch_page w c (marked s u d rest) u = (Some (p, links), s3)"
           "crawl_body w c s = paused c (stored w c s3 u d p links)"
proof (cases "u \<in> visited_urls s \<or> d > max_depth c")
  case True
  then have "crawl_body w c s = dequeued s u d rest"
    using q by (auto simp: crawl_body_def dequeued_def log_def Let_def)
  with True show ?thesis by (rule skip)
next
  case False
  then have nv: "u \<notin> visited_urls s" and dm: "d \<le> max_depth c" by auto
  obtain r s3 where f: "fetch_page w c (marked s u d rest) u = (r, s3)"
    by (cases "fetch_page w c (marked s u d rest) u") auto
  have m: "(log (Pop u d) (s\<lparr>crawl_queue := rest\<rparr>))
             \<lparr>visited_urls := insert u (visited_urls s)\<rparr>
           = marked s u d rest"
    by (simp add: marked_def dequeued_def)
  show ?thesis
  proof (cases r)
    case None
    have "crawl_body w c s = paused c s3"
      using q nv dm f None unfolding crawl_body_def
      by (simp add: Let_def m paused_def)
    with nv dm f None show ?thesis by (auto intro: fail)
  next
    case (Some pl)
    obtain p links where pl: "pl = (p, links)" by (cases pl) auto
    have "crawl_body w c s = paused c (stored w c s3 u d p links)"
      using q nv dm f Some pl unfolding crawl_body_def
      by (simp add: Let_def m paused_def stored_def)
    with nv dm f Some pl show ?thesis by (auto intro: success)
  qed
qed


lemma dequeued_fields [simp]:
  "crawl_queue (dequeued s u d rest) = rest"
  "pages_crawled (dequeued s u d rest) = pages_crawled s"
  "visited_urls (dequeued s u d rest) = visited_urls s"
  "crawled_data (dequeued s u d rest) = crawled_data s"
  "robots_cache (dequeued s u d rest) = robots_cache s"
  "raised (dequeued s u d rest) = raised s"
  "events (dequeued s u d rest) = events s @ [Pop u d]"
  by (simp_all add: dequeued_def)

lemma marked_fields [simp]:
  "crawl_queue (marked s u d rest) = rest"
  "pages_crawled (marked s u d rest) = pages_crawled s"
  "visited_urls (marked s u d rest) = insert u (visited_urls s)"
  "crawled_data (marked s u d rest) = crawled_data s"
  "robots_cache (marked s u d rest) = robots_cache s"
  "raised (marked s u d rest) = raised s"
  "events (marked s u d rest) = events s @ [Pop u d]"
  by (simp_all add: marked_def)

lemma stored_fields [simp]:
  "crawl_queue (stored w c s3 u d p links) =
     crawl_queue s3 @ (if d < max_depth c
                       then map (\<lambda>link. (link, d + 1))
                              (filter (\<lambda>link. link \<notin> visited_urls s3) (set_iter w links))
                       else [])"
  "pages_crawled (stored w c s3 u d p links) = pages_crawled s3 + 1"
  "visited_urls (stored w c s3 u d p links) = visited_urls s3"
  "crawled_data (stored w c s3 u d p links) = crawled_data s3 @ [p]"
  "robots_cache (stored w c s3 u d p links) = robots_cache s3"
  "raised (stored w c s3 u d p links) = raised s3"
  "events (stored w c s3 u d p links) = events s3 @ [Crawled u d]"
  by (simp_all add: stored_def Let_def)

lemma paused_fields [simp]:
  "crawl_queue (paused c s) = crawl_queue s"
  "pages_crawled (paused c s) = pages_crawled s"
  "visited_urls (paused c s) = visited_urls s"
  "crawled_data (paused c s) = crawled_data s"
  "robots_cache (paused c s) = robots_cache s"
  by (simp_all add: paused_def sleep_def)

lemma paused_events:
  "events (paused c s) =
     events s @ (if crawl_queue s \<noteq> [] \<and> \<not> delay c < 0 then [Sleep (delay c)] else [])"
  by (simp add: paused_def sleep_def)

lemma paused_proj [simp]:
  "pops (events (paused c s)) = pops (events s)"
  "fetch_attempts (events (paused c s)) = fetch_attempts (events s)"
  "gets (events (paused c s)) = gets (events s)"
  "robots_reads (events (paused c s)) = robots_reads (events s)"
  "crawled (events (paused c s)) = crawled (events s)"
  "can_fetches (events (paused c s)) = can_fetches (events s)"
  by (simp_all add: paused_events proj_append)

lemma fetch_page_state:
  assumes "fetch_page w c s2 u = (r, s3)"
  shows "crawl_queue s3 = crawl_queue s2"
    and "pages_crawled s3 = pages_crawled s2"
    and "visited_urls s3 = visited_urls s2"
    and "crawled_data s3 = crawled_data s2"
    and "raised s3 = raised s2"
  using fetch_page_fields[of w c s2 u] assms by simp_all

lemma fetch_page_proj:
  assumes "fetch_page w c s2 u = (r, s3)"
  shows "pops (events s3) = pops (events s2)"
    and "fetch_attempts (events s3) = fetch_attempts (events s2) @ [u]"
    and "crawled (events s3) = crawled (events s2)"
    and "sleeps (events s3) = sleeps (events s2)"
    and "\<exists>b. can_fetches (events s3) = can_fetches (events s2) @ [(u, b)] \<and>
              gets (events s3) = gets (events s2) @ (if b then [u] else []) \<and>
              (r \<noteq> None \<longrightarrow> b)"
proof -
  from fetch_page_events[of w c s2 u] assms obtain rs b where
    e: "events s3 = events s2 @ Fetching u # map RobotsRead rs @ CanFetch u b # (if b then [Get u] else [])"
    and b: "r \<noteq> None \<longrightarrow> b"
    by auto
  show "pops (events s3) = pops (events s2)"
    by (simp add: e proj_append)
  show "fetch_attempts (events s3) = fetch_attempts (events s2) @ [u]"
    by (simp add: e proj_append)
  show "crawled (events s3) = crawled (events s2)"
    by (simp add: e proj_append)
  show "sleeps (events s3) = sleeps (events s2)"
    by (simp add: e proj_append)
  have "can_fetches (events s3) = can_fetches (events s2) @ [(u, b)]"
    by (simp add: e proj_append)
  moreover have "gets (events s3) = gets (events s2) @ (if b then [u] else [])"
    by (simp add: e proj_append)
  ultimately show "\<exists>b. can_fetches (events s3) = can_fetches (events s2) @ [(u, b)] \<and>
              gets (events s3) = gets (events s2) @ (if b then [u] else []) \<and>
              (r \<noteq> None \<longrightarrow> b)"
    using b by blast
qed

lemma crawl_loop_invariant:
  assumes "I s" and "\<And>s. I s \<Longrightarrow> running c s \<Longrightarrow> I (crawl_body w c s)"
  shows "I (crawl_loop w c s)"
  using assms
proof (induction w c s rule: crawl_loop.induct)
  case (1 w c s)
  show ?case
  proof (cases "running c s")
    case True
    from "1.prems"(2)[OF "1.prems"(1) True] have "I (crawl_body w c s)" .
    from "1.IH"[OF True this "1.prems"(2)] have "I (crawl_loop w c (crawl_body w c s))" .
    with True show ?thesis by (subst crawl_loop.simps) simp
  next
    case False
    with "1.prems"(1) show ?thesis by (subst crawl_loop.simps) simp
  qed
qed

lemma running_queue: "running c s \<Longrightarrow> \<exists>u d rest. crawl_queue s = (u, d) # rest"
  by (cases "crawl_queue s") (auto simp: running_def)

text \<open>Every fetched URL is marked as visited, and no URL is fetched twice.\<close>

definition inv_once :: "state \<Rightarrow> bool" where
  "inv_once s \<longleftrightarrow>
     distinct (fetch_attempts (events s)) \<and> set (fetch_attempts (events s)) \<subseteq> visited_urls s \<and>
     distinct (map fst (can_fetches (events s))) \<and>
     (\<forall>x\<in>set (can_fetches (events s)). fst x \<in> visited_urls s) \<and>
     distinct (gets (events s)) \<and> set (gets (events s)) \<subseteq> visited_urls s \<and>
     distinct (map fst (crawled (events s))) \<and>
     (\<forall>x\<in>set (crawled (events s)). fst x \<in> visited_urls s) \<and>
     map url (crawled_data s) = map fst (crawled (events s))"

lemma inv_once_step:
  assumes "inv_once s" "running c s"
  shows "inv_once (crawl_body w c s)"
proof -
  from running_queue[OF assms(2)] obtain u d rest where q: "crawl_queue s = (u, d) # rest"
    by blast
  from q show ?thesis
  proof (cases rule: crawl_body_cases[where w = w and c = c])
    case skip
    with assms(1) show ?thesis
      by (simp add: inv_once_def proj_append)
  next
    case (fail s3)
    from fetch_page_proj[OF fail(3)] fetch_page_state[OF fail(3)] fail(1) assms(1)
    show ?thesis
      unfolding fail(4) inv_once_def
      by (auto simp: proj_append)
  next
    case (success s3 p links)
    from fetch_page_result(1)[of w c "marked s u d rest" u p links] success(3)
    have up: "url p = u" by simp
    from fetch_page_proj[OF success(3)] fetch_page_state[OF success(3)] success(1) assms(1) up
    show ?thesis
      unfolding success(4) inv_once_def
      by (auto simp: proj_append; fastforce)
  qed
qed



section \<open>Invariants of the loop\<close>

lemma paused_raised: "0 \<le> delay c \<Longrightarrow> raised (paused c s) = raised s"
  by (simp add: paused_def sleep_def)

definition inv_budget :: "crawler \<Rightarrow> state \<Rightarrow> bool" where
  "inv_budget c s \<longleftrightarrow>
     pages_crawled s = int (length (crawled_data s)) \<and>
     pages_crawled s \<le> max 0 (max_pages c) \<and>
     (\<forall>x\<in>set (crawled (events s)). snd x \<le> max_depth c)"

lemma inv_budget_step:
  assumes "inv_budget c s" "running c s"
  shows "inv_budget c (crawl_body w c s)"
proof -
  from running_queue[OF assms(2)] obtain u d rest where q: "crawl_queue s = (u, d) # rest"
    by blast
  from assms(2) have lt: "pages_crawled s < max_pages c"
    by (simp add: running_def)
  from q show ?thesis
  proof (cases rule: crawl_body_cases[where w = w and c = c])
    case skip
    with assms(1) show ?thesis
      by (simp add: inv_budget_def proj_append)
  next
    case (fail s3)
    from fetch_page_proj[OF fail(3)] fetch_page_state[OF fail(3)] assms(1)
    show ?thesis
      unfolding fail(4) inv_budget_def
      by (simp add: proj_append)
  next
    case (success s3 p links)
    from fetch_page_proj[OF success(3)] fetch_page_state[OF success(3)] assms(1) lt success(2)
    show ?thesis
      unfolding success(4) inv_budget_def
      by (simp add: proj_append)
  qed
qed

definition inv_fifo :: "state \<Rightarrow> bool" where
  "inv_fifo s \<longleftrightarrow>
     sorted (map snd (pops (events s)) @ map snd (crawl_queue s)) \<and>
     (\<forall>x\<in>set (crawl_queue s). snd x \<le> snd (hd (crawl_queue s)) + 1)"

lemma inv_fifo_rest:
  assumes "sorted (ps @ d # map snd rest)" "\<forall>x\<in>set rest. snd x \<le> d + 1"
  shows "\<forall>x\<in>set rest. snd x \<le> snd (hd rest) + (1::int)"
proof (cases rest)
  case Nil
  then show ?thesis by simp
next
  case (Cons y ys)
  with assms(1) have "d \<le> snd y" by (simp add: sorted_append)
  with assms(2) Cons show ?thesis by auto
qed

lemma inv_fifo_step:
  assumes "inv_fifo s" "running c s"
  shows "inv_fifo (crawl_body w c s)"
proof -
  from running_queue[OF assms(2)] obtain u d rest where q: "crawl_queue s = (u, d) # rest"
    by blast
  from assms(1) q have srt: "sorted (map snd (pops (events s)) @ d # map snd rest)"
    and bnd: "\<forall>x\<in>set rest. snd x \<le> d + 1"
    by (simp_all add: inv_fifo_def)
  note rest_bnd = inv_fifo_rest[OF srt bnd]
  from q show ?thesis
  proof (cases rule: crawl_body_cases[where w = w and c = c])
    case skip
    with srt rest_bnd show ?thesis
      by (simp add: inv_fifo_def proj_append)
  next
    case (fail s3)
    from fetch_page_proj[OF fail(3)] fetch_page_state[OF fail(3)] srt rest_bnd
    show ?thesis
      unfolding fail(4) inv_fifo_def
      by (simp add: proj_append)
  next
    case (success s3 p links)
    let ?kids = "if d < max_depth c
                 then map (\<lambda>link. (link, d + 1))
                              (filter (\<lambda>link. link \<notin> visited_urls s3) (set_iter w links))
                 else []"
    have kd: "\<forall>x\<in>set ?kids. snd x = d + 1" by auto
    have s1: "sorted (map snd (pops (events s)) @ d # map snd rest @ map snd ?kids)"
    proof -
      have "sorted (map snd ?kids)"
        using kd by (simp add: sorted_wrt_iff_nth_less o_def)
      moreover have "\<forall>x\<in>set (map snd (pops (events s)) @ d # map snd rest). \<forall>y\<in>set (map snd ?kids). x \<le> y"
      proof (intro ballI)
        fix x y
        assume x: "x \<in> set (map snd (pops (events s)) @ d # map snd rest)"
          and y: "y \<in> set (map snd ?kids)"
        from y kd have y1: "y = d + 1" by auto
        from x srt bnd have "x \<le> d + 1" by (auto simp: sorted_append)
        with y1 show "x \<le> y" by simp
      qed
      ultimately have "sorted ((map snd (pops (events s)) @ d # map snd rest) @ map snd ?kids)"
        using srt by (subst sorted_append) blast
      then show ?thesis by simp
    qed
    have s2: "\<forall>x\<in>set (rest @ ?kids). snd x \<le> snd (hd (rest @ ?kids)) + 1"
    proof (cases rest)
      case Nil
      then show ?thesis using kd by (cases ?kids) auto
    next
      case (Cons y ys)
      with srt have "d \<le> snd y" by (simp add: sorted_append)
      with bnd kd Cons show ?thesis by auto
    qed
    from fetch_page_proj[OF success(3)] fetch_page_state[OF success(3)] s1 s2
    show ?thesis
      unfolding success(4) inv_fifo_def
      by (simp add: proj_append)
  qed
qed

lemma dom_search_content: "dom (search_content w c t) = set (search_words c)"
  by (auto simp: search_content_eq dom_def)

definition inv_words :: "crawler \<Rightarrow> state \<Rightarrow> bool" where
  "inv_words c s \<longleftrightarrow> (\<forall>p\<in>set (crawled_data s). dom (word_matches p) = set (search_words c))"

lemma inv_words_step:
  assumes "inv_words c s" "running c s"
  shows "inv_words c (crawl_body w c s)"
proof -
  from running_queue[OF assms(2)] obtain u d rest where q: "crawl_queue s = (u, d) # rest"
    by blast
  from q show ?thesis
  proof (cases rule: crawl_body_cases[where w = w and c = c])
    case skip
    with assms(1) show ?thesis
      by (simp add: inv_words_def)
  next
    case (fail s3)
    from fetch_page_state[OF fail(3)] assms(1)
    show ?thesis
      unfolding fail(4) inv_words_def by simp
  next
    case (success s3 p links)
    from fetch_page_result(2)[of w c "marked s u d rest" u p links] success(3)
    obtain t where "word_matches p = search_content w c t" by auto
    then have "dom (word_matches p) = set (search_words c)"
      by (simp add: dom_search_content)
    with fetch_page_state[OF success(3)] assms(1)
    show ?thesis
      unfolding success(4) inv_words_def by simp
  qed
qed





lemma raised_step:
  assumes "0 \<le> delay c" "raised s = None" "running c s"
  shows "raised (crawl_body w c s) = None"
proof -
  from running_queue[OF assms(3)] obtain u d rest where q: "crawl_queue s = (u, d) # rest"
    by blast
  from q show ?thesis
  proof (cases rule: crawl_body_cases[where w = w and c = c])
    case skip
    with assms show ?thesis by simp
  next
    case (fail s3)
    from fetch_page_state[OF fail(3)] assms show ?thesis
      unfolding fail(4) by (simp add: paused_raised)
  next
    case (success s3 p links)
    from fetch_page_state[OF success(3)] assms show ?thesis
      unfolding success(4) by (simp add: paused_raised)
  qed
qed


section \<open>The finished crawl\<close>

lemma final_inv_once: "inv_once (final_state w c)"
proof -
  have i: "inv_once (initial_state c)"
    by (simp add: inv_once_def initial_state_def)
  show ?thesis
    unfolding final_state_def
    by (rule crawl_loop_invariant[where I = "inv_once", OF i]) (rule inv_once_step)
qed

lemma final_inv_budget: "inv_budget c (final_state w c)"
proof -
  have i: "inv_budget c (initial_state c)"
    by (simp add: inv_budget_def initial_state_def)
  show ?thesis
    unfolding final_state_def
    by (rule crawl_loop_invariant[where I = "inv_budget c", OF i]) (rule inv_budget_step)
qed

lemma final_inv_fifo: "inv_fifo (final_state w c)"
proof -
  have i: "inv_fifo (initial_state c)"
    by (simp add: inv_fifo_def initial_state_def)
  show ?thesis
    unfolding final_state_def
    by (rule crawl_loop_invariant[where I = "inv_fifo", OF i]) (rule inv_fifo_step)
qed

lemma final_inv_words: "inv_words c (final_state w c)"
proof -
  have i: "inv_words c (initial_state c)"
    by (simp add: inv_words_def initial_state_def)
  show ?thesis
    unfolding final_state_def
    by (rule crawl_loop_invariant[where I = "inv_words c", OF i]) (rule inv_words_step)
qed


lemma final_not_raised:
  assumes "0 \<le> delay c"
  shows "raised (final_state w c) = None"
proof -
  have i: "raised (initial_state c) = None"
    by (simp add: initial_state_def)
  show ?thesis
    unfolding final_state_def
    by (rule crawl_loop_invariant[where I = "\<lambda>s. raised s = None", OF i])
       (rule raised_step[OF assms])
qed

text \<open>With a delay that is not negative, \<open>crawl\<close> returns its list of pages.\<close>

lemma crawl_returns:
  assumes "0 \<le> delay c"
  shows "crawl w c = Inr (crawled_data (final_state w c))"
  by (simp add: crawl_def final_not_raised[OF assms])

lemma crawl_result:
  assumes "crawl w c = Inr ps"
  shows "ps = crawled_data (final_state w c)"
  using assms by (simp add: crawl_def split: option.splits)

lemma crawled_urls:
  "map url (crawled_data (final_state w c)) = map fst (crawled (events (final_state w c)))"
  using final_inv_once[of w c] by (simp add: inv_once_def)

lemma site_delay: "0 \<le> delay (site_crawler rr mp)"
  by (simp add: site_crawler_def)

subsection \<open>Runs on the example site\<close>

lemma site_run_robots:
  "events (final_state site_world (site_crawler True 2)) =
     [Pop seed_url 0, Fetching seed_url,
      RobotsRead (py ''https://example.com/robots.txt''),
      CanFetch seed_url True, Get seed_url, Crawled seed_url 0, Sleep 1,
      Pop page_a 1, Fetching page_a, CanFetch page_a False, Sleep 1,
      Pop page_b 1, Fetching page_b, CanFetch page_b True, Get page_b, Sleep 1,
      Pop page_c 1, Fetching page_c, CanFetch page_c True, Get page_c, Crawled page_c 1]"
  by code_simp

lemma site_run_no_robots:
  "events (final_state site_world (site_crawler False 2)) =
     [Pop seed_url 0, Fetching seed_url, CanFetch seed_url True, Get seed_url,
      Crawled seed_url 0, Sleep 1,
      Pop page_a 1, Fetching page_a, CanFetch page_a True, Get page_a,
      Crawled page_a 1, Sleep 1]"
  by code_simp

lemma site_run_all:
  "events (final_state site_world (site_crawler False 100)) =
     [Pop seed_url 0, Fetching seed_url, CanFetch seed_url True, Get seed_url,
      Crawled seed_url 0, Sleep 1,
      Pop page_a 1, Fetching page_a, CanFetch page_a True, Get page_a,
      Crawled page_a 1, Sleep 1,
      Pop page_b 1, Fetching page_b, CanFetch page_b True, Get page_b, Sleep 1,
      Pop page_c 1, Fetching page_c, CanFetch page_c True, Get page_c,
      Crawled page_c 1, Sleep 1,
      Pop page_b 2, Pop page_c 2]"
  by code_simp

section \<open>The claims about the crawl\<close>

text \<open>
  C7.  In every crawl no URL is fetched twice: the URLs on which the page fetcher is
  invoked are pairwise different, so are the URLs requested from the network, and so
  are the URLs of the pages in the result list.
\<close>

theorem fetched_at_most_once:
  "distinct (fetch_attempts (events (final_state w c))) \<and>
   distinct (gets (events (final_state w c))) \<and>
   distinct (map url (crawled_data (final_state w c))) \<and>
   (\<forall>ps. crawl w c = Inr ps \<longrightarrow> distinct (map url ps))"
proof -
  from final_inv_once[of w c]
  have 1: "distinct (fetch_attempts (events (final_state w c)))"
    and 2: "distinct (gets (events (final_state w c)))"
    and 3: "distinct (map url (crawled_data (final_state w c)))"
    by (simp_all add: inv_once_def)
  from 3 have "\<forall>ps. crawl w c = Inr ps \<longrightarrow> distinct (map url ps)"
    by (auto dest: crawl_result)
  with 1 2 3 show ?thesis by blast
qed

theorem fetched_at_most_once_witness:
  "crawl site_world (site_crawler True 2) =
     Inr (crawled_data (final_state site_world (site_crawler True 2))) \<and>
   fetch_attempts (events (final_state site_world (site_crawler True 2))) =
     [seed_url, page_a, page_b, page_c] \<and>
   distinct (fetch_attempts (events (final_state site_world (site_crawler True 2)))) \<and>
   gets (events (final_state site_world (site_crawler True 2))) = [seed_url, page_b, page_c] \<and>
   distinct (gets (events (final_state site_world (site_crawler True 2)))) \<and>
   map url (crawled_data (final_state site_world (site_crawler True 2))) = [seed_url, page_c] \<and>
   distinct (map url (crawled_data (final_state site_world (site_crawler True 2))))"
proof -
  have r: "crawl site_world (site_crawler True 2) =
             Inr (crawled_data (final_state site_world (site_crawler True 2)))"
    by (rule crawl_returns) (rule site_delay)
  have u: "map url (crawled_data (final_state site_world (site_crawler True 2))) =
             [seed_url, page_c]"
    by (simp add: crawled_urls site_run_robots)
  have f: "fetch_attempts (events (final_state site_world (site_crawler True 2))) =
             [seed_url, page_a, page_b, page_c]"
    by (simp add: site_run_robots)
  have g: "gets (events (final_state site_world (site_crawler True 2))) =
             [seed_url, page_b, page_c]"
    by (simp add: site_run_robots)
  from fetched_at_most_once[of site_world "site_crawler True 2"] r u f g
  show ?thesis by blast
qed

text \<open>
  C6, as amended.  The result list has at most \<open>max_pages\<close> pages when \<open>max_pages\<close> is not
  negative, and none otherwise; every page of the result was taken from the queue at a
  depth of at most \<open>max_depth\<close>.
\<close>

theorem page_and_depth_bounds:
  "int (length (crawled_data (final_state w c))) \<le> max 0 (max_pages c) \<and>
   (0 \<le> max_pages c \<longrightarrow> int (length (crawled_data (final_state w c))) \<le> max_pages c) \<and>
   map fst (crawled (events (final_state w c))) = map url (crawled_data (final_state w c)) \<and>
   (\<forall>x\<in>set (crawled (events (final_state w c))). snd x \<le> max_depth c)"
  using final_inv_budget[of c w] crawled_urls[of w c]
  by (auto simp: inv_budget_def)

theorem page_and_depth_bounds_witness:
  "0 \<le> max_pages (site_crawler False 2) \<and>
   crawled (events (final_state site_world (site_crawler False 2))) =
     [(seed_url, 0), (page_a, 1)] \<and>
   map url (crawled_data (final_state site_world (site_crawler False 2))) = [seed_url, page_a] \<and>
   int (length (crawled_data (final_state site_world (site_crawler False 2))))
     \<le> max_pages (site_crawler False 2) \<and>
   list_all (\<lambda>x. snd x \<le> max_depth (site_crawler False 2))
     (crawled (events (final_state site_world (site_crawler False 2))))"
proof -
  have m: "0 \<le> max_pages (site_crawler False 2)"
    by (simp add: site_crawler_def)
  have e: "crawled (events (final_state site_world (site_crawler False 2))) =
             [(seed_url, 0), (page_a, 1)]"
    by (simp add: site_run_no_robots)
  from page_and_depth_bounds[of site_world "site_crawler False 2"] m e
  show ?thesis
    by (simp add: list_all_iff)
qed

text \<open>
  The claim as stated fails for a negative \<open>max_pages\<close>: the loop is never entered, the
  result is empty, and its length 0 is not at most \<open>max_pages\<close>.
\<close>

theorem page_and_depth_bounds_counterexample:
  "crawl site_world (site_crawler False (- 1)) = Inr [] \<and>
   \<not> int (length (crawled_data (final_state site_world (site_crawler False (- 1)))))
       \<le> max_pages (site_crawler False (- 1))"
proof -
  have "final_state site_world (site_crawler False (- 1)) = initial_state (site_crawler False (- 1))"
    unfolding final_state_def
    by (subst crawl_loop.simps) (simp add: running_def initial_state_def site_crawler_def)
  then show ?thesis
    by (simp add: crawl_def initial_state_def site_crawler_def)
qed

text \<open>
  C4.  Entries leave the queue in the order of their depth: the depths of the entries
  taken from the queue never decrease, so every entry of depth \<open>d\<close> is taken before
  every entry of depth \<open>d + 1\<close>.
\<close>

theorem breadth_first_order:
  "sorted (map snd (pops (events (final_state w c)))) \<and>
   (\<forall>i j d. i < length (pops (events (final_state w c))) \<and>
            j < length (pops (events (final_state w c))) \<and>
            snd (pops (events (final_state w c)) ! i) = d \<and>
            snd (pops (events (final_state w c)) ! j) = d + 1 \<longrightarrow> i < j)"
proof -
  let ?P = "pops (events (final_state w c))"
  from final_inv_fifo[of w c] have s: "sorted (map snd ?P)"
    by (simp add: inv_fifo_def sorted_append)
  have "i < j" if "i < length ?P" "j < length ?P" "snd (?P ! i) = d" "snd (?P ! j) = d + 1"
    for i j d
  proof (rule ccontr)
    assume "\<not> i < j"
    then have "j \<le> i" by simp
    with s that(1) have "map snd ?P ! j \<le> map snd ?P ! i"
      by (simp add: sorted_iff_nth_mono)
    with that show False by simp
  qed
  with s show ?thesis by blast
qed

theorem breadth_first_order_witness:
  "pops (events (final_state site_world (site_crawler False 100))) =
     [(seed_url, 0), (page_a, 1), (page_b, 1), (page_c, 1), (page_b, 2), (page_c, 2)] \<and>
   sorted (map snd (pops (events (final_state site_world (site_crawler False 100))))) \<and>
   snd (pops (events (final_state site_world (site_crawler False 100))) ! 3) = 1 \<and>
   snd (pops (events (final_state site_world (site_crawler False 100))) ! 4) = 1 + 1 \<and>
   (3::nat) < 4"
proof -
  have p: "pops (events (final_state site_world (site_crawler False 100))) =
     [(seed_url, 0), (page_a, 1), (page_b, 1), (page_c, 1), (page_b, 2), (page_c, 2)]"
    by (simp add: site_run_all)
  from breadth_first_order[of site_world "site_crawler False 100"] p
  show ?thesis by simp
qed


text \<open>
  C10.  For a crawler made by \<open>__init__\<close>, the keys of \<open>word_matches\<close> in every page that
  the page fetcher returns, and so in every page of the result, are exactly the
  configured search terms in lower case; without terms the mapping is empty.
\<close>

theorem word_matches_keys:
  assumes "WebCrawler w su md dl mp rr ad sw = Some c"
  shows "(\<forall>p\<in>set (crawled_data (final_state w c)).
            dom (word_matches p) = (case sw of None \<Rightarrow> {} | Some ws \<Rightarrow> set (map (lower w) ws))) \<and>
         (\<forall>s u p links. fst (fetch_page w c s u) = Some (p, links) \<longrightarrow>
            dom (word_matches p) = (case sw of None \<Rightarrow> {} | Some ws \<Rightarrow> set (map (lower w) ws)))"
proof -
  have k: "set (search_words c) = (case sw of None \<Rightarrow> {} | Some ws \<Rightarrow> set (map (lower w) ws))"
    using WebCrawler_search_words[OF assms] by (cases sw) simp_all
  from final_inv_words[of c w] k
  have 1: "\<forall>p\<in>set (crawled_data (final_state w c)).
            dom (word_matches p) = (case sw of None \<Rightarrow> {} | Some ws \<Rightarrow> set (map (lower w) ws))"
    by (simp add: inv_words_def)
  have 2: "dom (word_matches p) = (case sw of None \<Rightarrow> {} | Some ws \<Rightarrow> set (map (lower w) ws))"
    if "fst (fetch_page w c s u) = Some (p, links)" for s u p links
  proof -
    from fetch_page_result(2)[OF that] obtain t where "word_matches p = search_content w c t"
      by blast
    with k show ?thesis by (simp add: dom_search_content)
  qed
  from 1 2 show ?thesis by blast
qed

lemma site_crawler_made:
  "WebCrawler site_world (py ''example.com'') 2 1 2 True None (Some [py ''Cat''])
     = Some (site_crawler True 2)"
  by code_simp

theorem word_matches_keys_witness:
  "WebCrawler site_world (py ''example.com'') 2 1 2 True None (Some [py ''Cat''])
     = Some (site_crawler True 2) \<and>
   map url (crawled_data (final_state site_world (site_crawler True 2))) = [seed_url, page_c] \<and>
   list_all (\<lambda>p. dom (word_matches p) = {py ''cat''})
     (crawled_data (final_state site_world (site_crawler True 2)))"
proof -
  have l: "lower site_world (py ''Cat'') = py ''cat''"
    by code_simp
  have u: "map url (crawled_data (final_state site_world (site_crawler True 2))) =
             [seed_url, page_c]"
    by (simp add: crawled_urls site_run_robots)
  from conjunct1[OF word_matches_keys[OF site_crawler_made]] l
  have "list_all (\<lambda>p. dom (word_matches p) = {py ''cat''})
          (crawled_data (final_state site_world (site_crawler True 2)))"
    by (simp add: list_all_iff)
  with site_crawler_made u show ?thesis by blast
qed







section \<open>The robots gate\<close>

lemma can_fetch_cache_keeps:
  assumes "robots_cache s d = Some rp"
  shows "robots_cache (snd (can_fetch w c s u)) d = Some rp"
  using assms
  by (auto simp: can_fetch_def Let_def split: option.splits)

lemma fetch_page_cache_keeps:
  assumes "robots_cache s d = Some rp"
  shows "robots_cache (snd (fetch_page w c s u)) d = Some rp"
proof -
  have "robots_cache (log (Fetching u) s) d = Some rp"
    using assms by simp
  from can_fetch_cache_keeps[OF this]
  show ?thesis
    by (simp add: fetch_page_def Let_def split: http_result.splits)
qed

lemma crawl_body_cache_keeps:
  assumes "robots_cache s d = Some rp"
  shows "robots_cache (crawl_body w c s) d = Some rp"
proof (cases "crawl_queue s")
  case Nil
  with assms show ?thesis by (simp add: crawl_body_def)
next
  case (Cons x rest)
  obtain u k where "x = (u, k)" by (cases x)
  with Cons have q: "crawl_queue s = (u, k) # rest" by simp
  from q show ?thesis
  proof (cases rule: crawl_body_cases[where w = w and c = c])
    case skip
    with assms show ?thesis by simp
  next
    case (fail s3)
    have "robots_cache (marked s u k rest) d = Some rp"
      using assms by simp
    from fetch_page_cache_keeps[OF this, of w c u] fail(3) show ?thesis
      unfolding fail(4) by simp
  next
    case (success s3 p links)
    have "robots_cache (marked s u k rest) d = Some rp"
      using assms by simp
    from fetch_page_cache_keeps[OF this, of w c u] success(3) show ?thesis
      unfolding success(4) by simp
  qed
qed

lemma crawl_loop_cache_keeps:
  assumes "robots_cache s d = Some rp"
  shows "robots_cache (crawl_loop w c s) d = Some rp"
  by (rule crawl_loop_invariant[where I = "\<lambda>s. robots_cache s d = Some rp", OF assms])
     (rule crawl_body_cache_keeps)

text \<open>
  C2, as amended.  With robots respect enabled: when there is no cached policy for the
  host of a URL and reading the robots file raises, the gate answers true, stores
  nothing and has made one request, so the next query for that host reads the file
  again; when reading succeeds, the policy is stored for the host; when a policy is
  cached, the gate answers from it without a request and leaves the state as it is.  An
  entry of the cache stays as it is through every later query and to the end of the
  crawl.
\<close>

theorem robots_gate_cache:
  "(\<forall>parsed. respect_robots c \<and> urlparse w u = Some parsed \<and>
      robots_cache s (netloc parsed) = None \<and>
      robots_read w (length (events s)) (robots_url_of parsed) = None \<longrightarrow>
        fst (can_fetch w c s u) \<and>
        robots_cache (snd (can_fetch w c s u)) = robots_cache s \<and>
        events (snd (can_fetch w c s u)) = events s @ [RobotsRead (robots_url_of parsed)]) \<and>
   (\<forall>parsed rp. respect_robots c \<and> urlparse w u = Some parsed \<and>
      robots_cache s (netloc parsed) = None \<and>
      robots_read w (length (events s)) (robots_url_of parsed) = Some rp \<longrightarrow>
        robots_cache (snd (can_fetch w c s u)) = (robots_cache s)(netloc parsed \<mapsto> rp) \<and>
        events (snd (can_fetch w c s u)) = events s @ [RobotsRead (robots_url_of parsed)]) \<and>
   (\<forall>parsed rp. respect_robots c \<and> urlparse w u = Some parsed \<and>
      robots_cache s (netloc parsed) = Some rp \<longrightarrow>
        snd (can_fetch w c s u) = s \<and>
        fst (can_fetch w c s u) = (case rp user_agent u of None \<Rightarrow> True | Some b \<Rightarrow> b)) \<and>
   (\<forall>d rp. robots_cache s d = Some rp \<longrightarrow>
      robots_cache (snd (can_fetch w c s u)) d = Some rp \<and>
      robots_cache (crawl_loop w c s) d = Some rp)"
proof -
  have 1: "fst (can_fetch w c s u) \<and>
        robots_cache (snd (can_fetch w c s u)) = robots_cache s \<and>
        events (snd (can_fetch w c s u)) = events s @ [RobotsRead (robots_url_of parsed)]"
    if "respect_robots c" "urlparse w u = Some parsed" "robots_cache s (netloc parsed) = None"
       "robots_read w (length (events s)) (robots_url_of parsed) = None" for parsed
    using that by (simp add: can_fetch_def Let_def robots_url_of_def)
  have 2: "robots_cache (snd (can_fetch w c s u)) = (robots_cache s)(netloc parsed \<mapsto> rp) \<and>
        events (snd (can_fetch w c s u)) = events s @ [RobotsRead (robots_url_of parsed)]"
    if "respect_robots c" "urlparse w u = Some parsed" "robots_cache s (netloc parsed) = None"
       "robots_read w (length (events s)) (robots_url_of parsed) = Some rp" for parsed rp
    using that by (simp add: can_fetch_def Let_def robots_url_of_def)
  have 3: "snd (can_fetch w c s u) = s \<and>
        fst (can_fetch w c s u) = (case rp user_agent u of None \<Rightarrow> True | Some b \<Rightarrow> b)"
    if "respect_robots c" "urlparse w u = Some parsed" "robots_cache s (netloc parsed) = Some rp"
    for parsed rp
    using that by (simp add: can_fetch_def Let_def)
  have 4: "robots_cache (snd (can_fetch w c s u)) d = Some rp \<and>
      robots_cache (crawl_loop w c s) d = Some rp"
    if "robots_cache s d = Some rp" for d rp
    using can_fetch_cache_keeps[OF that] crawl_loop_cache_keeps[OF that] by simp
  from 1 2 3 4 show ?thesis by blast
qed

lemma parsed_page_a:
  "urlparse offline_world page_a =
     Some \<lparr>scheme = py ''https'', netloc = py ''example.com'', path = py ''/a'',
           params = [], query = [], fragment = []\<rparr>"
  by code_simp

lemma robots_url_page_a:
  "robots_url_of \<lparr>scheme = py ''https'', netloc = py ''example.com'', path = py ''/a'',
                   params = [], query = [], fragment = []\<rparr>
     = py ''https://example.com/robots.txt''"
  by code_simp

theorem robots_gate_cache_witness:
  "respect_robots (site_crawler True 2) \<and>
   urlparse offline_world page_a =
     Some \<lparr>scheme = py ''https'', netloc = py ''example.com'', path = py ''/a'',
           params = [], query = [], fragment = []\<rparr> \<and>
   robots_cache (initial_state (site_crawler True 2)) (py ''example.com'') = None \<and>
   robots_read offline_world (length (events (initial_state (site_crawler True 2))))
     (py ''https://example.com/robots.txt'') = None \<and>
   fst (can_fetch offline_world (site_crawler True 2) (initial_state (site_crawler True 2)) page_a) \<and>
   robots_cache (snd (can_fetch offline_world (site_crawler True 2)
                        (initial_state (site_crawler True 2)) page_a))
     = robots_cache (initial_state (site_crawler True 2)) \<and>
   events (snd (can_fetch offline_world (site_crawler True 2)
                  (initial_state (site_crawler True 2)) page_a))
     = [RobotsRead (py ''https://example.com/robots.txt'')]"
proof -
  let ?c = "site_crawler True 2"
  let ?p = "\<lparr>scheme = py ''https'', netloc = py ''example.com'', path = py ''/a'',
             params = [], query = [], fragment = []\<rparr>"
  have r: "respect_robots ?c"
    by (simp add: site_crawler_def)
  have n: "robots_cache (initial_state ?c) (netloc ?p) = None"
    by (simp add: initial_state_def)
  have f: "robots_read offline_world (length (events (initial_state ?c))) (robots_url_of ?p) = None"
    by (simp add: offline_world_def)
  have e: "events (initial_state ?c) = []"
    by (simp add: initial_state_def)
  from conjunct1[OF robots_gate_cache[of ?c offline_world page_a "initial_state ?c"]]
    r parsed_page_a n f
  have "fst (can_fetch offline_world ?c (initial_state ?c) page_a) \<and>
        robots_cache (snd (can_fetch offline_world ?c (initial_state ?c) page_a))
          = robots_cache (initial_state ?c) \<and>
        events (snd (can_fetch offline_world ?c (initial_state ?c) page_a))
          = events (initial_state ?c) @ [RobotsRead (robots_url_of ?p)]"
    by blast
  with r parsed_page_a n f e show ?thesis
    by (simp add: robots_url_page_a)
qed

text \<open>
  The claim as stated fails: when reading the robots file raises, no policy is cached.
  Two queries for the same host, one after the other, both answer true, the cache has no
  entry for the host after them, and the robots file was requested twice.
\<close>

theorem robots_gate_cache_counterexample:
  "fst (can_fetch offline_world (site_crawler True 2) (initial_state (site_crawler True 2)) page_a) \<and>
   fst (can_fetch offline_world (site_crawler True 2)
          (snd (can_fetch offline_world (site_crawler True 2)
                  (initial_state (site_crawler True 2)) page_a)) page_b) \<and>
   dom (robots_cache
          (snd (can_fetch offline_world (site_crawler True 2)
                  (snd (can_fetch offline_world (site_crawler True 2)
                          (initial_state (site_crawler True 2)) page_a)) page_b))) = {} \<and>
   robots_reads (events
          (snd (can_fetch offline_world (site_crawler True 2)
                  (snd (can_fetch offline_world (site_crawler True 2)
                          (initial_state (site_crawler True 2)) page_a)) page_b))) =
     [py ''https://example.com/robots.txt'', py ''https://example.com/robots.txt'']"
proof -
  let ?c = "site_crawler True 2"
  let ?s1 = "snd (can_fetch offline_world ?c (initial_state ?c) page_a)"
  let ?s2 = "snd (can_fetch offline_world ?c ?s1 page_b)"
  have pa: "urlparse offline_world page_a =
     Some \<lparr>scheme = py ''https'', netloc = py ''example.com'', path = py ''/a'',
           params = [], query = [], fragment = []\<rparr>"
    by (rule parsed_page_a)
  have pb: "urlparse offline_world page_b =
     Some \<lparr>scheme = py ''https'', netloc = py ''example.com'', path = py ''/b'',
           params = [], query = [], fragment = []\<rparr>"
    by code_simp
  have ru: "py ''https'' @ py ''://'' @ py ''example.com'' @ py ''/robots.txt''
              = py ''https://example.com/robots.txt''"
    by code_simp
  have rr: "respect_robots ?c" by (simp add: site_crawler_def)
  have nr: "robots_read offline_world t r = None" for t r
    by (simp add: offline_world_def)
  have s1: "can_fetch offline_world ?c (initial_state ?c) page_a =
              (True, log (RobotsRead (py ''https://example.com/robots.txt'')) (initial_state ?c))"
    by (simp add: can_fetch_def Let_def rr pa nr ru initial_state_def)
  have s2: "can_fetch offline_world ?c
              (log (RobotsRead (py ''https://example.com/robots.txt'')) (initial_state ?c)) page_b =
              (True, log (RobotsRead (py ''https://example.com/robots.txt''))
                       (log (RobotsRead (py ''https://example.com/robots.txt''))
                          (initial_state ?c)))"
    by (simp add: can_fetch_def Let_def rr pb nr ru initial_state_def)
  show ?thesis
    by (simp add: s1 s2) (simp add: initial_state_def)
qed

section \<open>The delay\<close>






end
